theory Spec2Isabelle
  imports Main
begin

section \<open>The Ralph loop of ralph-app-builder\<close>

text \<open>
  The development embeds \<^verbatim>\<open>src/scripts/ralph.sh\<close>, the loop that picks one
  incomplete user story of \<^verbatim>\<open>prd.json\<close>, has the agent implement it, commits,
  and marks the story as passing. The document is typed by the interfaces
  \<^verbatim>\<open>UserStory\<close> and \<^verbatim>\<open>PRD\<close> of \<^verbatim>\<open>src/bin/create-app.ts\<close>.
\<close>

subsection \<open>The Task List document\<close>

text \<open>
  \<^verbatim>\<open>interface UserStory { id: number; title: string; description: string;
  acceptance: string[]; passes: boolean }\<close>. The field \<^verbatim>\<open>id\<close> is named
  \<open>story_id\<close> here, since \<open>id\<close> is the identity function of HOL; ids are integers.
\<close>

record UserStory =
  story_id :: int
  title :: string
  description :: string
  acceptance :: "string list"
  passes :: bool

record TechStack =
  framework :: string
  ui :: string
  styling :: string
  backend :: string

text \<open>\<^verbatim>\<open>interface PRD\<close>; its \<^verbatim>\<open>title\<close> is \<open>prd_title\<close>, the story has the plain name.\<close>

record PRD =
  prd_title :: string
  overview :: string
  techStack :: TechStack
  firebaseProjectId :: string
  userStories :: "UserStory list"

subsection \<open>Task Selector (line 40)\<close>

text \<open>
  \<^verbatim>\<open>jq -r '.userStories[] | select(.passes == false) | @json' prd.json | head -n 1\<close>:
  the stories are streamed in document order, those with \<^verbatim>\<open>passes == false\<close> are
  kept, one per output line, and \<^verbatim>\<open>head -n 1\<close> keeps the first line. An empty
  output is the "none" of line 42; its other test, for the text \<^verbatim>\<open>null\<close>, never
  holds for a story, which is an object.
\<close>

definition next_story :: "PRD \<Rightarrow> UserStory option" where
  "next_story d =
     (case filter (\<lambda>s. passes s = False) (userStories d) of
        [] \<Rightarrow> None
      | s # _ \<Rightarrow> Some s)"

subsection \<open>The marking filter (lines 127-128)\<close>

text \<open>
  \<^verbatim>\<open>.userStories = [.userStories[] | if .id == $id then .passes = true else . end]\<close>:
  the story array is rebuilt element by element, in order.
\<close>

definition mark :: "int \<Rightarrow> UserStory \<Rightarrow> UserStory" where
  "mark target s = (if story_id s = target then s\<lparr>passes := True\<rparr> else s)"

definition mark_story :: "int \<Rightarrow> PRD \<Rightarrow> PRD" where
  "mark_story target d = d\<lparr>userStories := map (mark target) (userStories d)\<rparr>"

subsection \<open>Final summary (lines 149-150)\<close>

definition COMPLETED :: "PRD \<Rightarrow> nat" where
  "COMPLETED d = length (filter (\<lambda>s. passes s = True) (userStories d))"

definition TOTAL :: "PRD \<Rightarrow> nat" where
  "TOTAL d = length (userStories d)"

text \<open>The incomplete items of a Task List, and the ids of the complete ones.\<close>

definition incomplete :: "PRD \<Rightarrow> UserStory list" where
  "incomplete d = filter (\<lambda>s. \<not> passes s) (userStories d)"

definition passed_ids :: "PRD \<Rightarrow> int set" where
  "passed_ids d = story_id ` {s \<in> set (userStories d). passes s}"

subsection \<open>Files\<close>

text \<open>
  The two files the script writes. (The third it names, \<^verbatim>\<open>prd.md\<close>, is only
  tested for and read into a variable that nothing uses.) A file holds a complete
  rendering of a document, nothing at all (what \<^verbatim>\<open>> prd.json.tmp\<close> leaves before
  jq writes), or text that is not a JSON document (an output cut short).
\<close>

datatype path = prd_json | prd_json_tmp

datatype content = Document PRD | Empty | Malformed

type_synonym files = "path \<Rightarrow> content option"

text \<open>
  How a run of jq on line 127 ends, as far as the script cannot decide it: it
  completes, or it dies before or after it has written part of its output.
\<close>

datatype jq_event = JqOk | JqFailsEmpty | JqFailsPartial

text \<open>The shell opens the redirection target first, creating or truncating it.\<close>

definition redirect_tmp :: "files \<Rightarrow> files" where
  "redirect_tmp fs = fs(prd_json_tmp := Some Empty)"

text \<open>
  jq reads \<^verbatim>\<open>prd.json\<close> and writes to the opened file; the result is its exit
  status being zero, and the files. On no input at all jq prints nothing and succeeds;
  on a missing or malformed input it fails with nothing written.
\<close>

definition jq_rewrite :: "jq_event \<Rightarrow> int \<Rightarrow> files \<Rightarrow> bool \<times> files" where
  "jq_rewrite ev target fs =
     (case fs prd_json of
        Some (Document d) \<Rightarrow>
          (case ev of
             JqOk \<Rightarrow> (True, fs(prd_json_tmp := Some (Document (mark_story target d))))
           | JqFailsEmpty \<Rightarrow> (False, fs)
           | JqFailsPartial \<Rightarrow> (False, fs(prd_json_tmp := Some Malformed)))
      | Some Empty \<Rightarrow> (case ev of JqOk \<Rightarrow> (True, fs) | _ \<Rightarrow> (False, fs))
      | _ \<Rightarrow> (False, fs))"

text \<open>\<^verbatim>\<open>mv prd.json.tmp prd.json\<close>: a rename.\<close>

definition mv_tmp :: "files \<Rightarrow> files" where
  "mv_tmp fs = fs(prd_json := fs prd_json_tmp, prd_json_tmp := None)"

text \<open>
  \<^verbatim>\<open>jq ... prd.json > prd.json.tmp && mv prd.json.tmp prd.json\<close>: the states the files
  go through, one per effect, and the last of them. The status of the list is not
  looked at by the script: a failing jq is the left side of \<^verbatim>\<open>&&\<close>.
\<close>

definition rewrite_states :: "jq_event \<Rightarrow> int \<Rightarrow> files \<Rightarrow> files list" where
  "rewrite_states ev target fs =
     (let fs1 = redirect_tmp fs;
          (ok, fs2) = jq_rewrite ev target fs1
      in if ok then [fs1, fs2, mv_tmp fs2] else [fs1, fs2])"

definition record_progress :: "jq_event \<Rightarrow> int \<Rightarrow> files \<Rightarrow> files" where
  "record_progress ev target fs = last (rewrite_states ev target fs)"

definition rewrite_ok :: "jq_event \<Rightarrow> int \<Rightarrow> files \<Rightarrow> bool" where
  "rewrite_ok ev target fs = fst (jq_rewrite ev target (redirect_tmp fs))"

subsection \<open>Selection from the file (lines 40-45)\<close>

text \<open>
  The exit status of the pipeline is that of \<^verbatim>\<open>head\<close>, so a jq that cannot read
  \<^verbatim>\<open>prd.json\<close> leaves \<^verbatim>\<open>NEXT_STORY\<close> empty like a list with nothing left to do.
\<close>

definition NEXT_STORY :: "content option \<Rightarrow> UserStory option" where
  "NEXT_STORY c = (case c of Some (Document d) \<Rightarrow> next_story d | _ \<Rightarrow> None)"

text \<open>\<^verbatim>\<open>.acceptance | join("; ")\<close> of line 51.\<close>

fun join :: "string \<Rightarrow> string list \<Rightarrow> string" where
  "join sep [] = []"
| "join sep [x] = x"
| "join sep (x # y # ys) = x @ sep @ join sep (y # ys)"

definition STORY_ACCEPTANCE :: "UserStory \<Rightarrow> string" where
  "STORY_ACCEPTANCE s = join ''; '' (acceptance s)"

subsection \<open>The repository and the working tree\<close>

text \<open>
  The two commits of the script: \<^verbatim>\<open>feat: Implement story #id - title\<close>, with the
  iteration and the acceptance criteria in its body (lines 109-112), and
  \<^verbatim>\<open>chore: Mark story #id as complete\<close> (line 133).
\<close>

datatype commit = Feat int string nat string | Chore int

text \<open>
  \<open>files\<close> is the working tree's view of the two files, \<open>committed\<close> what the last
  commit holds of them (\<open>None\<close>: not tracked), \<open>dirty\<close> whether any other tracked
  file has uncommitted modifications, \<open>history\<close> the local commits of this run in
  order, \<open>published\<close> how many of them the remote has.
\<close>

record state =
  files :: files
  committed :: files
  dirty :: bool
  history :: "commit list"
  published :: nat

text \<open>
  What the script cannot decide in one iteration: the status of the assignment of
  \<^verbatim>\<open>CLAUDE_PROMPT\<close> (that of its last command substitution, line 68), the agent's
  exit status and whether it modified tracked files, the two pushes, and the run of jq
  on line 127. The agent is taken not to write \<^verbatim>\<open>prd.json\<close> itself.

  The status of the assignment is an event because it is jq's. The two programs of
  line 68 stand in single quotes inside a command substitution, so the backslash the
  script puts before each of their double quotes reaches jq, which has no such token
  outside a string literal: a jq that rejects them makes this status its compile
  error, 3, in every pass that selects a story. The definitions leave the value to
  the events.
\<close>

record events =
  ctx_status :: nat
  claude_ok :: bool
  claude_changes :: bool
  push_feat_ok :: bool
  jq_run :: jq_event
  push_chore_ok :: bool

text \<open>\<^verbatim>\<open>git diff --quiet && git diff --cached --quiet\<close> (line 103): untracked files do not count.\<close>

definition tracked_clean :: "state \<Rightarrow> path \<Rightarrow> bool" where
  "tracked_clean s p = (case committed s p of None \<Rightarrow> True | Some c \<Rightarrow> files s p = Some c)"

definition no_changes :: "state \<Rightarrow> bool" where
  "no_changes s = (\<not> dirty s \<and> tracked_clean s prd_json \<and> tracked_clean s prd_json_tmp)"

text \<open>\<^verbatim>\<open>git add -A\<close> and \<^verbatim>\<open>git commit\<close> (lines 108-112).\<close>

definition commit_all :: "commit \<Rightarrow> state \<Rightarrow> state" where
  "commit_all c s = s\<lparr>committed := files s, dirty := False, history := history s @ [c]\<rparr>"

text \<open>\<^verbatim>\<open>git push origin main 2>/dev/null || git push origin main\<close>; a failure is only logged.\<close>

definition push :: "bool \<Rightarrow> state \<Rightarrow> state" where
  "push ok s = (if ok then s\<lparr>published := length (history s)\<rparr> else s)"

text \<open>
  \<^verbatim>\<open>git add prd.json\<close> and \<^verbatim>\<open>git commit -m "chore: ..." || true\<close> (lines 132-133):
  with nothing staged the commit is refused and the refusal ignored.
\<close>

definition commit_prd :: "commit \<Rightarrow> state \<Rightarrow> state" where
  "commit_prd c s =
     (if committed s prd_json = files s prd_json then s
      else s\<lparr>committed := (committed s)(prd_json := files s prd_json),
             history := history s @ [c]\<rparr>)"

subsection \<open>One pass of the loop body (lines 39-140)\<close>

text \<open>
  Under \<^verbatim>\<open>set -e\<close> a failing simple command ends the script with its status: the
  assignment of \<^verbatim>\<open>CLAUDE_PROMPT\<close>, and \<^verbatim>\<open>git add prd.json\<close> on a missing file
  (status 128). \<open>i\<close> is \<^verbatim>\<open>ITERATION\<close>, already incremented.
\<close>

datatype step = Continue state | Break state | Exit nat state

text \<open>What the agent leaves behind (line 95), whatever its exit status.\<close>

definition claude :: "events \<Rightarrow> state \<Rightarrow> state" where
  "claude e s = s\<lparr>dirty := (dirty s \<or> claude_changes e)\<rparr>"

text \<open>Lines 102-121: commit and push the changes, if any are detected.\<close>

definition change_committer :: "bool \<Rightarrow> nat \<Rightarrow> UserStory \<Rightarrow> state \<Rightarrow> state" where
  "change_committer push_ok i story s =
     (if no_changes s then s
      else push push_ok
             (commit_all (Feat (story_id story) (title story) i (STORY_ACCEPTANCE story)) s))"

text \<open>Lines 123-140: rewrite \<^verbatim>\<open>prd.json\<close>, commit it and push.\<close>

definition progress_recorder :: "jq_event \<Rightarrow> bool \<Rightarrow> UserStory \<Rightarrow> state \<Rightarrow> step" where
  "progress_recorder ev push_ok story s =
     (let s' = s\<lparr>files := record_progress ev (story_id story) (files s)\<rparr>
      in (case files s' prd_json of
            None \<Rightarrow> Exit 128 s'
          | Some c \<Rightarrow> Continue (push push_ok (commit_prd (Chore (story_id story)) s'))))"

definition iteration :: "events \<Rightarrow> nat \<Rightarrow> state \<Rightarrow> step" where
  "iteration e i s =
     (case NEXT_STORY (files s prd_json) of
        None \<Rightarrow> Break s
      | Some story \<Rightarrow>
          (if ctx_status e \<noteq> 0 then Exit (ctx_status e) s
           else if \<not> claude_ok e then Continue (claude e s)
           else progress_recorder (jq_run e) (push_chore_ok e) story
                  (change_committer (push_feat_ok e) i story (claude e s))))"

subsection \<open>The loop (lines 7-8, 36-37, 141)\<close>

definition MAX_ITERATIONS :: nat where
  "MAX_ITERATIONS = 50"

datatype loop_end = LoopBreak | LoopCap | LoopExit nat

text \<open>
  \<open>w\<close> gives the events of each iteration, by its number. The result is how the loop
  was left, the value of \<^verbatim>\<open>ITERATION\<close> then, and the state.
\<close>

function ralph_loop :: "(nat \<Rightarrow> events) \<Rightarrow> nat \<Rightarrow> state \<Rightarrow> loop_end \<times> nat \<times> state" where
  "ralph_loop w ITERATION s =
     (if ITERATION < MAX_ITERATIONS then
        (case iteration (w (ITERATION + 1)) (ITERATION + 1) s of
           Continue s' \<Rightarrow> ralph_loop w (ITERATION + 1) s'
         | Break s' \<Rightarrow> (LoopBreak, ITERATION + 1, s')
         | Exit n s' \<Rightarrow> (LoopExit n, ITERATION + 1, s'))
      else (LoopCap, ITERATION, s))"
  by pat_completeness auto
termination
  by (relation "measure (\<lambda>(w, ITERATION, s). MAX_ITERATIONS - ITERATION)") auto

subsection \<open>The script (lines 22-26, 143-157)\<close>

text \<open>
  The script ends with a status and no summary (\<open>Exited\<close>), or with the summary:
  how the loop was left, \<^verbatim>\<open>ITERATION\<close>, \<^verbatim>\<open>COMPLETED\<close> and \<^verbatim>\<open>TOTAL\<close> (\<open>None\<close> for
  the empty string jq leaves on an empty file) and whether it printed "All stories
  implemented successfully!" rather than "Some stories remain incomplete".
\<close>

datatype result =
    Exited nat nat
  | Finished loop_end nat "nat option" "nat option" bool

definition summary :: "loop_end \<Rightarrow> nat \<Rightarrow> content option \<Rightarrow> result" where
  "summary how i c =
     (case c of
        Some (Document d) \<Rightarrow>
          Finished how i (Some (COMPLETED d)) (Some (TOTAL d)) (COMPLETED d = TOTAL d)
      | Some Empty \<Rightarrow> Finished how i None None False
      | _ \<Rightarrow> Exited 2 i)"

definition ralph :: "(nat \<Rightarrow> events) \<Rightarrow> state \<Rightarrow> result \<times> state" where
  "ralph w s =
     (case files s prd_json of
        None \<Rightarrow> (Exited 1 0, s)
      | Some _ \<Rightarrow>
          (case ralph_loop w 0 s of
             (LoopExit n, i, s') \<Rightarrow> (Exited n i, s')
           | (how, i, s') \<Rightarrow> (summary how i (files s' prd_json), s')))"

text \<open>The iteration counter a run ended with.\<close>

fun iterations :: "result \<Rightarrow> nat" where
  "iterations (Exited n i) = i"
| "iterations (Finished how i c t a) = i"

text \<open>The state a pass of the loop body leaves.\<close>

fun after :: "step \<Rightarrow> state" where
  "after (Continue s) = s"
| "after (Break s) = s"
| "after (Exit n s) = s"

subsection \<open>Documents that differ by completions only\<close>

text \<open>
  \<open>grown d d'\<close>: \<open>d'\<close> is \<open>d\<close> with, at each position of the story list, the same
  item, or the same item with \<open>passes\<close> turned from false to true.
\<close>

definition grown :: "PRD \<Rightarrow> PRD \<Rightarrow> bool" where
  "grown d d' =
     (d' = d\<lparr>userStories := userStories d'\<rparr> \<and>
      list_all2 (\<lambda>a b. b = a \<or> (\<not> passes a \<and> b = a\<lparr>passes := True\<rparr>))
        (userStories d) (userStories d'))"

subsection \<open>Reachability by passes of the loop body\<close>

inductive reaches :: "state \<Rightarrow> state \<Rightarrow> bool" where
  reaches_refl: "reaches s s"
| reaches_step: "reaches s t \<Longrightarrow> iteration e i t = Continue u \<Longrightarrow> reaches s u"

subsection \<open>Sample documents, states and events\<close>

definition story1 :: UserStory where
  "story1 = \<lparr>story_id = 1, title = ''User Authentication'',
              description = ''As a user, I want to sign in'',
              acceptance = [''Can sign in'', ''Can sign out''], passes = False\<rparr>"

definition story2 :: UserStory where
  "story2 = \<lparr>story_id = 2, title = ''Profile page'',
              description = ''As a user, I want to edit my profile'',
              acceptance = [''Can edit name''], passes = False\<rparr>"

definition prd_of :: "UserStory list \<Rightarrow> PRD" where
  "prd_of xs = \<lparr>prd_title = ''My App'', overview = ''A brief description of the app'',
                 techStack = \<lparr>framework = ''Angular'', ui = ''PrimeNG'',
                              styling = ''TailwindCSS'', backend = ''Firebase''\<rparr>,
                 firebaseProjectId = ''my-app-abc123'', userStories = xs\<rparr>"

text \<open>A clean repository whose last commit holds the document.\<close>

definition start :: "PRD \<Rightarrow> state" where
  "start d = \<lparr>files = (\<lambda>p. None)(prd_json := Some (Document d)),
               committed = (\<lambda>p. None)(prd_json := Some (Document d)),
               dirty = False, history = [], published = 0\<rparr>"

text \<open>
  The agent succeeds and changes nothing (\<open>quiet\<close>), succeeds with changes (\<open>busy\<close>),
  or fails after it has changed files (\<open>failing\<close>).
\<close>

definition quiet :: events where
  "quiet = \<lparr>ctx_status = 0, claude_ok = True, claude_changes = False,
             push_feat_ok = True, jq_run = JqOk, push_chore_ok = True\<rparr>"

definition busy :: events where
  "busy = quiet\<lparr>claude_changes := True\<rparr>"

definition failing :: events where
  "failing = busy\<lparr>claude_ok := False\<rparr>"

text \<open>
  A pass in which jq rejects the programs of line 68, as it does the text the script
  hands it: the assignment of \<^verbatim>\<open>CLAUDE_PROMPT\<close> returns 3.
\<close>

definition rejected :: events where
  "rejected = busy\<lparr>ctx_status := 3\<rparr>"

text \<open>
  Two stories out of id order; fifty-one incomplete stories with the ids 1 to 51.
\<close>

definition unsorted_prd :: PRD where
  "unsorted_prd = prd_of [story2, story1]"

definition big_prd :: PRD where
  "big_prd = prd_of (map (\<lambda>n. story1\<lparr>story_id := n\<rparr>) [1..51])"

section \<open>Properties of the marking filter\<close>

lemma userStories_mark_story [simp]:
  "userStories (mark_story t d) = map (mark t) (userStories d)"
  by (simp add: mark_story_def)

lemma story_id_mark [simp]: "story_id (mark t s) = story_id s"
  by (simp add: mark_def)

lemma passes_mark [simp]: "passes (mark t s) = (passes s \<or> story_id s = t)"
  by (simp add: mark_def)

lemma mark_idem [simp]: "mark t (mark t s) = mark t s"
  by (simp add: mark_def)

lemma mark_other: "story_id s \<noteq> t \<Longrightarrow> mark t s = s"
  by (simp add: mark_def)

lemma map_mark_absent: "t \<notin> story_id ` set xs \<Longrightarrow> map (mark t) xs = xs"
  by (induction xs) (auto simp: mark_def)

lemma mark_story_absent: "t \<notin> story_id ` set (userStories d) \<Longrightarrow> mark_story t d = d"
  by (simp add: mark_story_def map_mark_absent)

section \<open>Properties of the selector\<close>

lemma next_story_None: "(next_story d = None) = (\<forall>s \<in> set (userStories d). passes s)"
proof -
  have "(next_story d = None) = (filter (\<lambda>s. passes s = False) (userStories d) = [])"
    by (simp add: next_story_def split: list.splits)
  then show ?thesis by (simp add: filter_empty_conv)
qed

lemma next_story_Some_split:
  assumes "next_story d = Some s"
  shows "\<exists>pre post. userStories d = pre @ s # post \<and> (\<forall>p \<in> set pre. passes p) \<and> \<not> passes s"
proof -
  from assms obtain rest where "filter (\<lambda>s. passes s = False) (userStories d) = s # rest"
    by (auto simp: next_story_def split: list.splits)
  then show ?thesis
    by (auto simp: filter_eq_Cons_iff)
qed

lemma next_story_min:
  assumes "sorted (map story_id (userStories d))" "next_story d = Some s"
  shows "s \<in> set (userStories d) \<and> \<not> passes s \<and>
         (\<forall>t \<in> set (userStories d). \<not> passes t \<longrightarrow> story_id s \<le> story_id t)"
proof -
  from next_story_Some_split[OF assms(2)] obtain pre post where
    sp: "userStories d = pre @ s # post" "\<forall>p \<in> set pre. passes p" "\<not> passes s"
    by blast
  from assms(1) sp(1) have "\<forall>t \<in> set post. story_id s \<le> story_id t"
    by (auto simp: sorted_append)
  with sp show ?thesis by auto
qed

section \<open>Properties of the rewrite\<close>

lemma record_progress_Document:
  "fs prd_json = Some (Document d) \<Longrightarrow>
   record_progress JqOk t fs =
     fs(prd_json := Some (Document (mark_story t d)), prd_json_tmp := None)"
  by (auto simp: Let_def record_progress_def rewrite_states_def redirect_tmp_def
        jq_rewrite_def mv_tmp_def fun_eq_iff)

lemma mark_story_idem: "mark_story t (mark_story t d) = mark_story t d"
  by (simp add: mark_story_def)

section \<open>Documents only grow\<close>

declare ralph_loop.simps [simp del]

lemma grown_refl: "grown d d"
  by (simp add: grown_def list_all2_refl)

lemma grown_trans: "grown a b \<Longrightarrow> grown b c \<Longrightarrow> grown a c"
proof -
  assume ab: "grown a b" and bc: "grown b c"
  have "list_all2 (\<lambda>a b. b = a \<or> (\<not> passes a \<and> b = a\<lparr>passes := True\<rparr>))
          (userStories a) (userStories c)"
  proof (rule list_all2_trans)
    show "list_all2 (\<lambda>a b. b = a \<or> (\<not> passes a \<and> b = a\<lparr>passes := True\<rparr>))
            (userStories a) (userStories b)"
      using ab by (simp add: grown_def)
    show "list_all2 (\<lambda>a b. b = a \<or> (\<not> passes a \<and> b = a\<lparr>passes := True\<rparr>))
            (userStories b) (userStories c)"
      using bc by (simp add: grown_def)
  qed auto
  moreover have "c = a\<lparr>userStories := userStories c\<rparr>"
    using ab bc unfolding grown_def by (metis PRD.surjective PRD.update_convs(5))
  ultimately show ?thesis by (simp add: grown_def)
qed

lemma grown_mark_story: "grown d (mark_story t d)"
  by (auto simp: grown_def mark_story_def mark_def list_all2_conv_all_nth)

lemma grown_ids: "grown d d' \<Longrightarrow> map story_id (userStories d') = map story_id (userStories d)"
  by (auto simp: grown_def list_all2_conv_all_nth intro!: nth_equalityI)

lemma grown_nth:
  "grown d d' \<Longrightarrow> length (userStories d') = length (userStories d) \<and>
     (\<forall>k < length (userStories d).
        userStories d' ! k = userStories d ! k \<or>
        (\<not> passes (userStories d ! k) \<and>
         userStories d' ! k = (userStories d ! k)\<lparr>passes := True\<rparr>))"
  by (auto simp: grown_def list_all2_conv_all_nth)

lemma grown_passed_ids: "grown d d' \<Longrightarrow> passed_ids d \<subseteq> passed_ids d'"
proof
  fix x assume g: "grown d d'" and x: "x \<in> passed_ids d"
  then obtain s where s: "s \<in> set (userStories d)" "passes s" "story_id s = x"
    by (auto simp: passed_ids_def)
  then obtain k where k: "k < length (userStories d)" "userStories d ! k = s"
    by (auto simp: in_set_conv_nth)
  with grown_nth[OF g] s have "userStories d' ! k = s" "k < length (userStories d')"
    by auto
  then have "s \<in> set (userStories d')" by (metis nth_mem)
  with s show "x \<in> passed_ids d'" by (auto simp: passed_ids_def)
qed

section \<open>One pass of the loop body\<close>

lemma files_progress_recorder:
  assumes "files s prd_json = Some (Document d)"
  shows "\<exists>s'. progress_recorder ev ok st s = Continue s' \<and>
           files s' prd_json =
             Some (Document (if ev = JqOk then mark_story (story_id st) d else d))"
  using assms
  by (cases ev)
     (auto simp: progress_recorder_def Let_def record_progress_def rewrite_states_def
        redirect_tmp_def jq_rewrite_def mv_tmp_def push_def commit_prd_def)

lemma files_change_committer [simp]: "files (change_committer ok i st s) = files s"
  by (simp add: change_committer_def push_def commit_all_def)

lemma files_claude [simp]: "files (claude e s) = files s"
  by (simp add: claude_def)

lemma iteration_Document:
  assumes "files s prd_json = Some (Document d)"
  shows "(next_story d = None \<and> iteration e i s = Break s) \<or>
         (\<exists>st. next_story d = Some st \<and>
            (if ctx_status e \<noteq> 0 then iteration e i s = Exit (ctx_status e) s
             else if \<not> claude_ok e then iteration e i s = Continue (claude e s)
             else \<exists>s'. iteration e i s = Continue s' \<and>
                    files s' prd_json =
                      Some (Document (if jq_run e = JqOk
                                      then mark_story (story_id st) d else d))))"
proof (cases "next_story d")
  case None
  then show ?thesis using assms by (simp add: iteration_def NEXT_STORY_def)
next
  case (Some st)
  have f: "files (change_committer (push_feat_ok e) i st (claude e s)) prd_json
             = Some (Document d)"
    using assms by simp
  from files_progress_recorder[OF f, of "jq_run e" "push_chore_ok e" st]
  show ?thesis using Some assms
    by (auto simp: iteration_def NEXT_STORY_def)
qed

lemma iteration_grown:
  assumes "files s prd_json = Some (Document d)"
  shows "\<exists>d'. files (after (iteration e i s)) prd_json = Some (Document d') \<and> grown d d'"
  using iteration_Document[OF assms, of e i] assms
  by (auto simp: grown_refl grown_mark_story split: if_splits)

section \<open>The loop\<close>

lemma loop_grown:
  "files s prd_json = Some (Document d) \<Longrightarrow> ralph_loop w i s = (how, j, s') \<Longrightarrow>
   \<exists>d'. files s' prd_json = Some (Document d') \<and> grown d d'"
proof (induction w i s arbitrary: d rule: ralph_loop.induct)
  case (1 w i s)
  show ?case
  proof (cases "i < MAX_ITERATIONS")
    case False
    with "1.prems" show ?thesis
      by (auto simp: ralph_loop.simps[of w i s] grown_refl)
  next
    case True
    from iteration_grown[OF "1.prems"(1), of "w (i + 1)" "i + 1"]
    obtain d1 where
      d1: "files (after (iteration (w (i + 1)) (i + 1) s)) prd_json = Some (Document d1)"
        "grown d d1" by blast
    show ?thesis
    proof (cases "iteration (w (i + 1)) (i + 1) s")
      case (Continue u)
      with True "1.prems" have "ralph_loop w (i + 1) u = (how, j, s')"
        by (simp add: ralph_loop.simps[of w i s])
      from "1.IH"[OF True Continue _ this, of d1] d1 Continue
      show ?thesis by (auto intro: grown_trans)
    next
      case (Break u)
      with True "1.prems" d1 show ?thesis
        by (auto simp: ralph_loop.simps[of w i s])
    next
      case (Exit n u)
      with True "1.prems" d1 show ?thesis
        by (auto simp: ralph_loop.simps[of w i s])
    qed
  qed
qed

lemma loop_bound: "i \<le> MAX_ITERATIONS \<Longrightarrow> fst (snd (ralph_loop w i s)) \<le> MAX_ITERATIONS"
proof (induction w i s rule: ralph_loop.induct)
  case (1 w i s)
  show ?case
  proof (cases "i < MAX_ITERATIONS")
    case False
    then have "ralph_loop w i s = (LoopCap, i, s)"
      by (simp add: ralph_loop.simps[of w i s])
    with "1.prems" show ?thesis by simp
  next
    case True
    then show ?thesis using "1.IH"
      by (cases "iteration (w (i + 1)) (i + 1) s") (auto simp: ralph_loop.simps[of w i s])
  qed
qed

section \<open>The iteration cap\<close>

text \<open>
  What lines 36-37 are written for: were the assignment of \<^verbatim>\<open>CLAUDE_PROMPT\<close> to
  succeed in every pass, a list with distinct ids and more incomplete items than passes
  left would leave the loop by its condition, with the counter at the cap and items
  still incomplete (\<open>loop_cap\<close>); and no run ends with a counter above the cap
  (\<open>loop_bound\<close>, \<open>ralph_bound\<close>).
\<close>

lemma story_id_comp_mark [simp]: "story_id \<circ> mark t = story_id"
  by (simp add: fun_eq_iff)

lemma incomplete_mark_le:
  "distinct (map story_id xs) \<Longrightarrow>
   length (filter (\<lambda>s. \<not> passes s) xs) \<le> Suc (length (filter (\<lambda>s. \<not> passes s) (map (mark t) xs)))"
proof (induction xs)
  case Nil
  then show ?case by simp
next
  case (Cons x xs)
  show ?case
  proof (cases "story_id x = t")
    case True
    with Cons.prems have "t \<notin> story_id ` set xs" by auto
    then have "map (mark t) xs = xs" by (rule map_mark_absent)
    then show ?thesis by simp
  next
    case False
    then have "mark t x = x" by (simp add: mark_other)
    with Cons show ?thesis by simp
  qed
qed

lemma incomplete_mark_story:
  "distinct (map story_id (userStories d)) \<Longrightarrow>
   length (incomplete d) \<le> Suc (length (incomplete (mark_story t d)))"
  unfolding incomplete_def userStories_mark_story by (rule incomplete_mark_le)

lemma incomplete_pos: "(0 < length (incomplete d)) = (next_story d \<noteq> None)"
  by (auto simp: incomplete_def next_story_None filter_empty_conv)

lemma loop_cap:
  "\<forall>j. ctx_status (w j) = 0 \<Longrightarrow> files s prd_json = Some (Document d) \<Longrightarrow> distinct (map story_id (userStories d)) \<Longrightarrow>
     MAX_ITERATIONS < length (incomplete d) + i \<Longrightarrow> i \<le> MAX_ITERATIONS \<Longrightarrow>
     \<exists>s' d'. ralph_loop w i s = (LoopCap, MAX_ITERATIONS, s') \<and>
        files s' prd_json = Some (Document d') \<and> grown d d' \<and> 0 < length (incomplete d')"
proof (induction w i s arbitrary: d rule: ralph_loop.induct)
  case (1 w i s)
  show ?case
  proof (cases "i < MAX_ITERATIONS")
    case False
    with "1.prems" have "i = MAX_ITERATIONS" by simp
    moreover from False have "ralph_loop w i s = (LoopCap, i, s)"
      by (simp add: ralph_loop.simps[of w i s])
    ultimately show ?thesis using "1.prems" by (auto intro: grown_refl)
  next
    case True
    with "1.prems" have "0 < length (incomplete d)" by linarith
    then have "next_story d \<noteq> None" using incomplete_pos[of d] by blast
    then obtain st where st: "next_story d = Some st" by auto
    let ?e = "w (i + 1)"
    from "1.prems"(1) have ctx: "ctx_status ?e = 0" by simp
    from iteration_Document[OF "1.prems"(2), of ?e "i + 1"] st ctx "1.prems"(2)
    obtain u d1 where u: "iteration ?e (i + 1) s = Continue u"
      "files u prd_json = Some (Document d1)" "d1 = d \<or> d1 = mark_story (story_id st) d"
      by (auto split: if_splits)
    from u(3) "1.prems"(3) have dist: "distinct (map story_id (userStories d1))"
      by auto
    from u(3) "1.prems"(3) have le: "length (incomplete d) \<le> Suc (length (incomplete d1))"
      using incomplete_mark_story by auto
    with "1.prems" have m: "MAX_ITERATIONS < length (incomplete d1) + (i + 1)" by simp
    from True have i1: "i + 1 \<le> MAX_ITERATIONS" by simp
    from "1.IH"[OF True u(1) "1.prems"(1) u(2) dist m i1]
    obtain s' d' where r: "ralph_loop w (i + 1) u = (LoopCap, MAX_ITERATIONS, s')"
      "files s' prd_json = Some (Document d')" "grown d1 d'" "0 < length (incomplete d')"
      by blast
    from u(3) have "grown d d1" by (auto intro: grown_refl grown_mark_story)
    with r(3) have "grown d d'" by (blast intro: grown_trans)
    moreover from True u(1) r(1) have "ralph_loop w i s = (LoopCap, MAX_ITERATIONS, s')"
      by (simp add: ralph_loop.simps[of w i s])
    ultimately show ?thesis using r by blast
  qed
qed

lemma counts: "TOTAL d - COMPLETED d = length (incomplete d) \<and> COMPLETED d \<le> TOTAL d"
proof -
  have "length (filter (\<lambda>s. passes s) (userStories d)) + length (filter (\<lambda>s. \<not> passes s) (userStories d))
          = length (userStories d)"
    by (rule sum_length_filter_compl)
  then show ?thesis by (simp add: TOTAL_def COMPLETED_def incomplete_def)
qed

section \<open>Helper facts for the claims\<close>

lemma rewrite_failure_keeps:
  "\<not> rewrite_ok ev t fs \<Longrightarrow> record_progress ev t fs prd_json = fs prd_json"
  by (auto simp: Let_def rewrite_ok_def record_progress_def rewrite_states_def redirect_tmp_def
        jq_rewrite_def mv_tmp_def
        split: option.splits content.splits jq_event.splits prod.splits)

lemma rewrite_states_last:
  "f \<in> set (rewrite_states ev t fs) \<Longrightarrow>
   f prd_json = fs prd_json \<or> (rewrite_ok ev t fs \<and> f = record_progress ev t fs)"
  by (auto simp: Let_def rewrite_ok_def record_progress_def rewrite_states_def redirect_tmp_def
        jq_rewrite_def mv_tmp_def
        split: option.splits content.splits jq_event.splits prod.splits if_splits)

lemma rewrite_states_Document:
  "fs prd_json = Some (Document d) \<Longrightarrow> f \<in> set (rewrite_states ev t fs) \<Longrightarrow>
   f prd_json = Some (Document d) \<or>
   (rewrite_ok ev t fs \<and> f prd_json = Some (Document (mark_story t d)))"
  by (auto simp: Let_def rewrite_ok_def record_progress_def rewrite_states_def redirect_tmp_def
        jq_rewrite_def mv_tmp_def
        split: option.splits content.splits jq_event.splits prod.splits if_splits)

lemma next_story_changes:
  assumes "next_story d = Some st"
  shows "mark_story (story_id st) d \<noteq> d"
proof
  assume eq: "mark_story (story_id st) d = d"
  from next_story_Some_split[OF assms] have st: "st \<in> set (userStories d)" "\<not> passes st"
    by auto
  from eq have "map (mark (story_id st)) (userStories d) = userStories d"
    by (metis userStories_mark_story)
  then have "\<forall>x \<in> set (userStories d). mark (story_id st) x = x"
    by (simp add: map_idI map_eq_conv[of _ _ "\<lambda>x. x", simplified])
  with st(1) have "mark (story_id st) st = st" by blast
  then have "passes st" by (metis passes_mark)
  with st(2) show False by simp
qed

lemma start_files: "files (start d) prd_json = Some (Document d)"
  by (simp add: start_def)

text \<open>
  Line 103 finds no modification after the agent exactly when there was none before it
  and the agent made none.
\<close>

lemma no_changes_claude: "no_changes (claude e s) = (no_changes s \<and> \<not> claude_changes e)"
  by (auto simp: no_changes_def tracked_clean_def claude_def split: option.splits)

lemma no_changes_start_quiet: "no_changes (claude quiet (start d))"
  by (simp add: no_changes_def tracked_clean_def claude_def quiet_def start_def)

lemma next_story_two: "next_story (prd_of [story1, story2]) = Some story1"
  by (simp add: next_story_def prd_of_def story1_def)

lemma reaches_grown:
  "reaches s t \<Longrightarrow> files s prd_json = Some (Document d) \<Longrightarrow>
   \<exists>d'. files t prd_json = Some (Document d') \<and> grown d d'"
proof (induction rule: reaches.induct)
  case (reaches_refl s)
  then show ?case by (auto intro: grown_refl)
next
  case (reaches_step s t e i u)
  then obtain d1 where d1: "files t prd_json = Some (Document d1)" "grown d d1" by blast
  from iteration_grown[OF d1(1), of e i] reaches_step.hyps(2)
  obtain d2 where "files u prd_json = Some (Document d2)" "grown d1 d2" by auto
  with d1(2) show ?case by (blast intro: grown_trans)
qed

lemma grown_passes:
  "grown d d' \<Longrightarrow> j < length (userStories d) \<Longrightarrow> passes (userStories d ! j) \<Longrightarrow>
   passes (userStories d' ! j)"
  using grown_nth[of d d'] by auto

lemma selected_later:
  assumes srt: "sorted_wrt (<) (map story_id (userStories d))"
    and sel: "next_story d = Some st"
    and g: "grown (mark_story (story_id st) d) d'"
    and sel': "next_story d' = Some n"
  shows "story_id st < story_id n"
proof -
  let ?k = "story_id st"
  let ?us = "userStories d"
  let ?us' = "userStories d'"
  from next_story_Some_split[OF sel] obtain pre post where
    sp: "?us = pre @ st # post" "\<forall>p \<in> set pre. passes p" by blast
  let ?m = "length pre"
  have m: "?m < length ?us" "?us ! ?m = st" using sp(1) by simp_all
  have early: "passes (?us ! j)" if "j < ?m" for j
    using that sp by (simp add: nth_append)
  from next_story_Some_split[OF sel'] have n: "n \<in> set ?us'" "\<not> passes n" by auto
  then obtain j where j: "j < length ?us'" "?us' ! j = n" by (auto simp: in_set_conv_nth)
  from grown_nth[OF g] have len: "length ?us' = length ?us" by simp
  from grown_ids[OF g] have ids: "map story_id ?us' = map story_id ?us" by simp
  have marked: "passes (?us' ! i)" if "i < length ?us" "passes (?us ! i) \<or> story_id (?us ! i) = ?k" for i
  proof -
    from that have "passes (userStories (mark_story ?k d) ! i)" by auto
    with grown_passes[OF g, of i] that(1) show ?thesis by simp
  qed
  have "?m < j"
  proof (rule ccontr)
    assume "\<not> ?m < j"
    then have "j < ?m \<or> j = ?m" by auto
    then have "passes (?us' ! j)"
    proof
      assume "j < ?m"
      with early[of j] m(1) marked[of j] show ?thesis by simp
    next
      assume "j = ?m"
      with m marked[of j] show ?thesis by simp
    qed
    with j n show False by simp
  qed
  moreover from j(1) len have "j < length (map story_id ?us)" by simp
  ultimately have "map story_id ?us ! ?m < map story_id ?us ! j"
    using srt by (rule sorted_wrt_nth_less[rotated])
  with m j len have lt: "?k < story_id (?us ! j)" by simp
  from ids j(1) len have "story_id (?us' ! j) = story_id (?us ! j)"
    by (metis nth_map)
  with lt j(2) show ?thesis by simp
qed

lemma ralph_bound: "iterations (fst (ralph w s)) \<le> MAX_ITERATIONS"
proof (cases "files s prd_json")
  case None
  then show ?thesis by (simp add: ralph_def)
next
  case (Some c)
  obtain how j s' where r: "ralph_loop w 0 s = (how, j, s')" by (metis prod_cases3)
  from loop_bound[of 0 w s] r have j: "j \<le> MAX_ITERATIONS" by simp
  show ?thesis using Some r j
    by (cases how; cases "files s' prd_json"; (cases "the (files s' prd_json)")?)
       (auto simp: ralph_def summary_def split: option.splits content.splits)
qed

lemma big_prd_stories: "userStories big_prd = map (\<lambda>n. story1\<lparr>story_id := n\<rparr>) [1..51]"
  by (simp add: big_prd_def prd_of_def)

lemma big_prd_distinct: "distinct (map story_id (userStories big_prd))"
  by (simp add: big_prd_stories o_def)

lemma big_prd_incomplete: "length (incomplete big_prd) = 51"
  by (simp add: incomplete_def big_prd_stories filter_map o_def story1_def)

lemma big_prd_next: "next_story big_prd \<noteq> None"
  using incomplete_pos[of big_prd] by (simp add: big_prd_incomplete)

lemma ralph_loop_Exit:
  "i < MAX_ITERATIONS \<Longrightarrow> iteration (w (i + 1)) (i + 1) s = Exit n s' \<Longrightarrow>
   ralph_loop w i s = (LoopExit n, i + 1, s')"
  by (simp add: ralph_loop.simps[of w i s])

section \<open>The claims\<close>

text \<open>
  C1 (as amended). The Task Selector returns the first item in document order with
  \<^verbatim>\<open>passes == false\<close>: every item before it passes. It returns "none" if and only if
  every item passes (an empty list included). Whenever the ids are in non-decreasing
  order in the document, the item returned has the minimum id among the items with
  \<^verbatim>\<open>passes == false\<close>.
\<close>

theorem C1_first_incomplete:
  "(next_story d = None \<longleftrightarrow> (\<forall>s \<in> set (userStories d). passes s)) \<and>
   (\<forall>s. next_story d = Some s \<longrightarrow>
      (\<exists>pre post. userStories d = pre @ s # post \<and> (\<forall>p \<in> set pre. passes p) \<and> \<not> passes s)) \<and>
   (sorted (map story_id (userStories d)) \<longrightarrow>
      (\<forall>s. next_story d = Some s \<longrightarrow>
         s \<in> set (userStories d) \<and> \<not> passes s \<and>
         (\<forall>t \<in> set (userStories d). \<not> passes t \<longrightarrow> story_id s \<le> story_id t)))"
proof (intro conjI allI impI)
  show "next_story d = None \<longleftrightarrow> (\<forall>s \<in> set (userStories d). passes s)"
    by (rule next_story_None)
next
  fix s assume "next_story d = Some s"
  then show "\<exists>pre post. userStories d = pre @ s # post \<and> (\<forall>p \<in> set pre. passes p) \<and> \<not> passes s"
    by (rule next_story_Some_split)
next
  fix s assume a: "sorted (map story_id (userStories d))" "next_story d = Some s"
  from next_story_min[OF a]
  show "s \<in> set (userStories d)" "\<not> passes s"
    "\<forall>t \<in> set (userStories d). \<not> passes t \<longrightarrow> story_id s \<le> story_id t"
    by blast+
qed

theorem C1_first_incomplete_witness:
  "sorted (map story_id
      (userStories (prd_of [story1\<lparr>passes := True\<rparr>, story2, story2\<lparr>story_id := 3\<rparr>]))) \<and>
   next_story (prd_of [story1\<lparr>passes := True\<rparr>, story2, story2\<lparr>story_id := 3\<rparr>])
     = Some story2 \<and>
   story2\<lparr>story_id := 3\<rparr>
     \<in> set (userStories (prd_of [story1\<lparr>passes := True\<rparr>, story2, story2\<lparr>story_id := 3\<rparr>])) \<and>
   story_id story2 \<le> story_id (story2\<lparr>story_id := 3\<rparr>)"
proof -
  let ?d = "prd_of [story1\<lparr>passes := True\<rparr>, story2, story2\<lparr>story_id := 3\<rparr>]"
  have us: "userStories ?d = [story1\<lparr>passes := True\<rparr>, story2, story2\<lparr>story_id := 3\<rparr>]"
    by (simp add: prd_of_def)
  have srt: "sorted (map story_id (userStories ?d))"
    unfolding us by (simp add: story1_def story2_def)
  have sel: "next_story ?d = Some story2"
    unfolding next_story_def us by (simp add: story1_def story2_def)
  have mem: "story2\<lparr>story_id := 3\<rparr> \<in> set (userStories ?d)"
    "\<not> passes (story2\<lparr>story_id := 3\<rparr>)"
    unfolding us by (simp_all add: story2_def)
  from C1_first_incomplete [of ?d] srt sel mem
  have "story_id story2 \<le> story_id (story2\<lparr>story_id := 3\<rparr>)" by blast
  with srt sel mem show ?thesis by blast
qed

text \<open>
  C1 as stated fails: with story 2 listed before story 1, both incomplete, story 2 is
  selected although story 1 is incomplete and has the lower id.
\<close>

theorem C1_counterexample:
  "next_story unsorted_prd = Some story2 \<and>
   story1 \<in> set (userStories unsorted_prd) \<and> passes story1 = False \<and>
   story_id story1 < story_id story2"
proof -
  have us: "userStories unsorted_prd = [story2, story1]"
    by (simp add: unsorted_prd_def prd_of_def)
  have "next_story unsorted_prd = Some story2"
    unfolding next_story_def us by (simp add: story1_def story2_def)
  moreover have "passes story1 = False" "story_id story1 < story_id story2"
    by (simp_all add: story1_def story2_def)
  ultimately show ?thesis by (simp add: us)
qed

text \<open>
  C2. The script as written does not reach the cap. For every Task List with an item
  left to do, so for every list with more than 50 of them, a run whose first pass gets
  jq's status 3 from the assignment of \<^verbatim>\<open>CLAUDE_PROMPT\<close> ends there under
  \<^verbatim>\<open>set -e\<close>: the script exits 3 with the counter at 1, before the agent is called,
  with no summary and nothing changed. The claim has such a run end at the cap, with
  the counter at 50 and a report of the items that remain.
\<close>

theorem C2_exit_at_line_68:
  assumes "files s prd_json = Some (Document d)"
    and "0 < length (incomplete d)"
    and "ctx_status (w 1) = 3"
  shows "ralph w s = (Exited 3 1, s)"
proof -
  from assms(2) have "next_story d \<noteq> None" using incomplete_pos[of d] by blast
  with iteration_Document[OF assms(1), of "w (0 + 1)" "0 + 1"] assms(3)
  have "iteration (w (0 + 1)) (0 + 1) s = Exit 3 s" by auto
  moreover have "(0::nat) < MAX_ITERATIONS" by (simp add: MAX_ITERATIONS_def)
  ultimately have "ralph_loop w 0 s = (LoopExit 3, 0 + 1, s)"
    by (rule ralph_loop_Exit[rotated])
  with assms(1) show ?thesis by (simp add: ralph_def)
qed

theorem C2_exit_at_line_68_witness:
  "files (start big_prd) prd_json = Some (Document big_prd) \<and>
   distinct (map story_id (userStories big_prd)) \<and>
   length (incomplete big_prd) = 51 \<and>
   ctx_status rejected = 3 \<and>
   ralph (\<lambda>j. rejected) (start big_prd) = (Exited 3 1, start big_prd)"
proof -
  have c: "ctx_status ((\<lambda>j::nat. rejected) 1) = 3"
    by (simp add: rejected_def)
  have n: "0 < length (incomplete big_prd)" by (simp add: big_prd_incomplete)
  from C2_exit_at_line_68 [OF start_files n c]
  have "ralph (\<lambda>j. rejected) (start big_prd) = (Exited 3 1, start big_prd)" .
  with c start_files[of big_prd] big_prd_distinct big_prd_incomplete show ?thesis by simp
qed

text \<open>
  C3. In an iteration that reaches the agent and in which the agent reports failure,
  the Progress Recorder does not run: the files, the committed document and the
  history are as before, the selected item still has \<^verbatim>\<open>passes == false\<close> and is
  selected again from the resulting state, and the loop goes on from there with the
  counter advanced by one.
\<close>

theorem C3_agent_failure:
  assumes "NEXT_STORY (files s prd_json) = Some st"
    and "ctx_status (w (i + 1)) = 0" and "\<not> claude_ok (w (i + 1))"
  shows "iteration (w (i + 1)) (i + 1) s = Continue (claude (w (i + 1)) s) \<and>
         files (claude (w (i + 1)) s) = files s \<and>
         committed (claude (w (i + 1)) s) = committed s \<and>
         history (claude (w (i + 1)) s) = history s \<and>
         passes st = False \<and>
         NEXT_STORY (files (claude (w (i + 1)) s) prd_json) = Some st \<and>
         (i < MAX_ITERATIONS \<longrightarrow>
            ralph_loop w i s = ralph_loop w (i + 1) (claude (w (i + 1)) s))"
proof -
  from assms(1) obtain d where d: "files s prd_json = Some (Document d)" "next_story d = Some st"
    by (auto simp: NEXT_STORY_def split: option.splits content.splits)
  from next_story_Some_split[OF d(2)] have p: "passes st = False" by blast
  have it: "iteration (w (i + 1)) (i + 1) s = Continue (claude (w (i + 1)) s)"
    using assms by (simp add: iteration_def)
  then have "i < MAX_ITERATIONS \<longrightarrow>
            ralph_loop w i s = ralph_loop w (i + 1) (claude (w (i + 1)) s)"
    by (simp add: ralph_loop.simps[of w i s])
  with it p assms(1) show ?thesis by (simp add: claude_def)
qed

theorem C3_agent_failure_witness:
  "NEXT_STORY (files (start (prd_of [story1, story2])) prd_json) = Some story1 \<and>
   ctx_status failing = 0 \<and> \<not> claude_ok failing \<and>
   iteration failing 1 (start (prd_of [story1, story2]))
     = Continue (claude failing (start (prd_of [story1, story2]))) \<and>
   NEXT_STORY (files (claude failing (start (prd_of [story1, story2]))) prd_json) = Some story1 \<and>
   ralph_loop (\<lambda>j. failing) 0 (start (prd_of [story1, story2]))
     = ralph_loop (\<lambda>j. failing) 1 (claude failing (start (prd_of [story1, story2])))"
proof -
  let ?s = "start (prd_of [story1, story2])"
  have sel: "NEXT_STORY (files ?s prd_json) = Some story1"
    by (simp add: start_def NEXT_STORY_def next_story_def prd_of_def story1_def)
  have e: "ctx_status ((\<lambda>j. failing) (0 + 1)) = 0" "\<not> claude_ok ((\<lambda>j. failing) (0 + 1))"
    by (simp_all add: failing_def busy_def quiet_def)
  have c: "(0::nat) < MAX_ITERATIONS" by (simp add: MAX_ITERATIONS_def)
  from C3_agent_failure [of ?s story1 "\<lambda>j. failing" 0, OF sel e] c e sel
  show ?thesis by simp
qed

text \<open>
  C4. Whatever the events, from whatever iteration count, the document the loop leaves
  differs from the one it started with by completions only: the same number of items
  in the same order, each the same item or the same item with \<open>passes\<close> turned from
  false to true, every other field of the document unchanged; so the set of ids that
  pass only grows.
\<close>

theorem C4_monotonic:
  assumes "files s prd_json = Some (Document d)"
  shows "\<exists>d'. files (snd (snd (ralph_loop w i s))) prd_json = Some (Document d') \<and>
           d' = d\<lparr>userStories := userStories d'\<rparr> \<and>
           length (userStories d') = length (userStories d) \<and>
           (\<forall>k < length (userStories d).
              userStories d' ! k = userStories d ! k \<or>
              (\<not> passes (userStories d ! k) \<and>
               userStories d' ! k = (userStories d ! k)\<lparr>passes := True\<rparr>)) \<and>
           passed_ids d \<subseteq> passed_ids d'"
proof -
  obtain how j s' where r: "ralph_loop w i s = (how, j, s')" by (metis prod_cases3)
  from loop_grown[OF assms r] obtain d' where
    d': "files s' prd_json = Some (Document d')" "grown d d'" by blast
  from d'(2) have "d' = d\<lparr>userStories := userStories d'\<rparr>" by (simp add: grown_def)
  with d' r grown_nth[OF d'(2)] grown_passed_ids[OF d'(2)] show ?thesis by auto
qed

theorem C4_monotonic_witness:
  "files (start (prd_of [story1, story2])) prd_json = Some (Document (prd_of [story1, story2])) \<and>
   (\<exists>d'. files (snd (snd (ralph_loop (\<lambda>j. busy) 0 (start (prd_of [story1, story2]))))) prd_json
            = Some (Document d') \<and>
         length (userStories d') = length (userStories (prd_of [story1, story2])) \<and>
         passed_ids (prd_of [story1, story2]) \<subseteq> passed_ids d')"
proof -
  have f: "files (start (prd_of [story1, story2])) prd_json = Some (Document (prd_of [story1, story2]))"
    by (simp add: start_def)
  from C4_monotonic [OF f, of "\<lambda>j. busy" 0] f show ?thesis by blast
qed

text \<open>
  C5. The marking filter keeps the length and the order of the story list; at each
  position, an item whose id is the target becomes the same item with
  \<^verbatim>\<open>passes = true\<close>, and an item with another id is unchanged; the other fields of
  the document are unchanged; and a successful run of the Progress Recorder leaves
  exactly this document in \<^verbatim>\<open>prd.json\<close>.
\<close>

theorem C5_mark_story_frame:
  "length (userStories (mark_story t d)) = length (userStories d) \<and>
   (\<forall>i < length (userStories d).
      (story_id (userStories d ! i) = t \<longrightarrow>
         userStories (mark_story t d) ! i = (userStories d ! i)\<lparr>passes := True\<rparr>) \<and>
      (story_id (userStories d ! i) \<noteq> t \<longrightarrow>
         userStories (mark_story t d) ! i = userStories d ! i)) \<and>
   prd_title (mark_story t d) = prd_title d \<and> overview (mark_story t d) = overview d \<and>
   techStack (mark_story t d) = techStack d \<and>
   firebaseProjectId (mark_story t d) = firebaseProjectId d \<and>
   (\<forall>fs. fs prd_json = Some (Document d) \<longrightarrow>
      record_progress JqOk t fs prd_json = Some (Document (mark_story t d)))"
  by (simp add: mark_story_def mark_def record_progress_Document)

theorem C5_mark_story_frame_witness:
  "1 < length (userStories (prd_of [story1, story2])) \<and>
   story_id (userStories (prd_of [story1, story2]) ! 1) = 2 \<and>
   story_id (userStories (prd_of [story1, story2]) ! 0) \<noteq> 2 \<and>
   userStories (mark_story 2 (prd_of [story1, story2])) ! 1 = story2\<lparr>passes := True\<rparr> \<and>
   userStories (mark_story 2 (prd_of [story1, story2])) ! 0 = story1 \<and>
   files (start (prd_of [story1, story2])) prd_json = Some (Document (prd_of [story1, story2])) \<and>
   record_progress JqOk 2 (files (start (prd_of [story1, story2]))) prd_json
     = Some (Document (mark_story 2 (prd_of [story1, story2])))"
proof -
  let ?d = "prd_of [story1, story2]"
  have us: "userStories ?d = [story1, story2]" by (simp add: prd_of_def)
  have l: "1 < length (userStories ?d)" "0 < length (userStories ?d)" by (simp_all add: us)
  have i1: "story_id (userStories ?d ! 1) = 2" unfolding us by (simp add: story2_def)
  have i0: "story_id (userStories ?d ! 0) \<noteq> 2" unfolding us by (simp add: story1_def)
  have f: "files (start ?d) prd_json = Some (Document ?d)" by (simp add: start_def)
  from C5_mark_story_frame [of 2 ?d] l i1 i0 f
  have "userStories (mark_story 2 ?d) ! 1 = (userStories ?d ! 1)\<lparr>passes := True\<rparr>"
    "userStories (mark_story 2 ?d) ! 0 = userStories ?d ! 0"
    "record_progress JqOk 2 (files (start ?d)) prd_json = Some (Document (mark_story 2 ?d))"
    by blast+
  with l i1 i0 f show ?thesis by (simp add: us)
qed

text \<open>
  C6. Marking the same target twice gives the same document as marking it once: the
  list keeps its length, every item with the target id is the same item with
  \<^verbatim>\<open>passes = true\<close>, and every other item, its \<open>passes\<close> value included, is as it
  was. Running the Progress Recorder's rewrite twice with the same target (and the same
  fate of jq) leaves the same files as running it once, and where jq completes, once
  or twice, \<^verbatim>\<open>prd.json\<close> holds the document marked once.
\<close>

theorem C6_idempotent:
  "mark_story t (mark_story t d) = mark_story t d \<and>
   record_progress ev t (record_progress ev t fs) = record_progress ev t fs \<and>
   length (userStories (mark_story t (mark_story t d))) = length (userStories d) \<and>
   (\<forall>i < length (userStories d).
      (story_id (userStories d ! i) = t \<longrightarrow>
         passes (userStories (mark_story t (mark_story t d)) ! i) = True \<and>
         userStories (mark_story t (mark_story t d)) ! i = (userStories d ! i)\<lparr>passes := True\<rparr>) \<and>
      (story_id (userStories d ! i) \<noteq> t \<longrightarrow>
         passes (userStories (mark_story t (mark_story t d)) ! i) = passes (userStories d ! i) \<and>
         userStories (mark_story t (mark_story t d)) ! i = userStories d ! i)) \<and>
   (fs prd_json = Some (Document d) \<longrightarrow>
      record_progress JqOk t fs prd_json = Some (Document (mark_story t d)) \<and>
      record_progress JqOk t (record_progress JqOk t fs) prd_json
        = Some (Document (mark_story t d)))"
proof (intro conjI allI impI)
  show "mark_story t (mark_story t d) = mark_story t d" by (rule mark_story_idem)
  show "record_progress ev t (record_progress ev t fs) = record_progress ev t fs"
    by (cases ev; cases "fs prd_json"; (cases "the (fs prd_json)")?)
       (auto simp: Let_def record_progress_def rewrite_states_def redirect_tmp_def
          jq_rewrite_def mv_tmp_def fun_eq_iff mark_story_idem
          split: option.splits content.splits)
  show "length (userStories (mark_story t (mark_story t d))) = length (userStories d)"
    by simp
next
  fix i assume "i < length (userStories d)" "story_id (userStories d ! i) = t"
  then show "passes (userStories (mark_story t (mark_story t d)) ! i) = True"
    "userStories (mark_story t (mark_story t d)) ! i = (userStories d ! i)\<lparr>passes := True\<rparr>"
    by (simp_all add: mark_def)
next
  fix i assume "i < length (userStories d)" "story_id (userStories d ! i) \<noteq> t"
  then show "passes (userStories (mark_story t (mark_story t d)) ! i) = passes (userStories d ! i)"
    "userStories (mark_story t (mark_story t d)) ! i = userStories d ! i"
    by (simp_all add: mark_def)
next
  assume f: "fs prd_json = Some (Document d)"
  then show 1: "record_progress JqOk t fs prd_json = Some (Document (mark_story t d))"
    by (simp add: record_progress_Document)
  from record_progress_Document[of "record_progress JqOk t fs" "mark_story t d" t, OF 1]
  show "record_progress JqOk t (record_progress JqOk t fs) prd_json
        = Some (Document (mark_story t d))"
    by (simp add: mark_story_idem)
qed

theorem C6_idempotent_witness:
  "0 < length (userStories (prd_of [story1, story2])) \<and>
   1 < length (userStories (prd_of [story1, story2])) \<and>
   story_id (userStories (prd_of [story1, story2]) ! 0) = 1 \<and>
   story_id (userStories (prd_of [story1, story2]) ! 1) \<noteq> 1 \<and>
   files (start (prd_of [story1, story2])) prd_json = Some (Document (prd_of [story1, story2])) \<and>
   passes (userStories (mark_story 1 (mark_story 1 (prd_of [story1, story2]))) ! 0) = True \<and>
   passes (userStories (mark_story 1 (mark_story 1 (prd_of [story1, story2]))) ! 1)
     = passes (userStories (prd_of [story1, story2]) ! 1) \<and>
   passes (userStories (prd_of [story1, story2]) ! 1) = False \<and>
   record_progress JqOk 1 (record_progress JqOk 1 (files (start (prd_of [story1, story2])))) prd_json
     = Some (Document (mark_story 1 (prd_of [story1, story2])))"
proof -
  let ?d = "prd_of [story1, story2]"
  have us: "userStories ?d = [story1, story2]" by (simp add: prd_of_def)
  have l: "0 < length (userStories ?d)" "1 < length (userStories ?d)" by (simp_all add: us)
  have i0: "story_id (userStories ?d ! 0) = 1" unfolding us by (simp add: story1_def)
  have i1: "story_id (userStories ?d ! 1) \<noteq> 1" unfolding us by (simp add: story2_def)
  have p1: "passes (userStories ?d ! 1) = False" unfolding us by (simp add: story2_def)
  note c6 = C6_idempotent [of 1 ?d JqOk "files (start ?d)"]
  from c6 l(1) i0
  have a: "passes (userStories (mark_story 1 (mark_story 1 ?d)) ! 0) = True" by blast
  from c6 l(2) i1
  have b: "passes (userStories (mark_story 1 (mark_story 1 ?d)) ! 1) = passes (userStories ?d ! 1)"
    by blast
  from c6 start_files[of ?d]
  have c: "record_progress JqOk 1 (record_progress JqOk 1 (files (start ?d))) prd_json
     = Some (Document (mark_story 1 ?d))" by blast
  from l i0 i1 p1 a b c start_files[of ?d] show ?thesis by blast
qed



text \<open>
  C8. If jq fails, \<^verbatim>\<open>prd.json\<close> is what it was. In every state the files go
  through, \<^verbatim>\<open>prd.json\<close> is what it was, unless the state is the last one, after the
  rename, and jq has succeeded. A complete document in \<^verbatim>\<open>prd.json\<close> is, in every
  such state, either that document or the complete marked document.
\<close>

theorem C8_atomic_rewrite:
  "(\<not> rewrite_ok ev t fs \<longrightarrow> record_progress ev t fs prd_json = fs prd_json) \<and>
   (\<forall>f \<in> set (rewrite_states ev t fs).
      f prd_json = fs prd_json \<or> (rewrite_ok ev t fs \<and> f = record_progress ev t fs)) \<and>
   (\<forall>d. fs prd_json = Some (Document d) \<longrightarrow>
      (\<forall>f \<in> set (rewrite_states ev t fs).
         f prd_json = Some (Document d) \<or>
         (rewrite_ok ev t fs \<and> f prd_json = Some (Document (mark_story t d)))))"
  using rewrite_failure_keeps rewrite_states_last rewrite_states_Document by blast

theorem C8_atomic_rewrite_witness:
  "\<not> rewrite_ok JqFailsPartial 1 (files (start (prd_of [story1]))) \<and>
   record_progress JqFailsPartial 1 (files (start (prd_of [story1]))) prd_json
      = files (start (prd_of [story1])) prd_json \<and>
   files (start (prd_of [story1])) prd_json = Some (Document (prd_of [story1])) \<and>
   rewrite_ok JqOk 1 (files (start (prd_of [story1]))) \<and>
   redirect_tmp (files (start (prd_of [story1])))
      \<in> set (rewrite_states JqOk 1 (files (start (prd_of [story1])))) \<and>
   redirect_tmp (files (start (prd_of [story1]))) prd_json = Some (Document (prd_of [story1]))"
proof -
  let ?fs = "files (start (prd_of [story1]))"
  have f: "?fs prd_json = Some (Document (prd_of [story1]))" by (simp add: start_def)
  have bad: "\<not> rewrite_ok JqFailsPartial 1 ?fs"
    by (simp add: rewrite_ok_def jq_rewrite_def redirect_tmp_def f)
  have good: "rewrite_ok JqOk 1 ?fs"
    by (simp add: rewrite_ok_def jq_rewrite_def redirect_tmp_def f)
  have mem: "redirect_tmp ?fs \<in> set (rewrite_states JqOk 1 ?fs)"
    by (cases "jq_rewrite JqOk 1 (redirect_tmp ?fs)") (simp add: rewrite_states_def Let_def)
  from C8_atomic_rewrite [of JqFailsPartial 1 ?fs] bad
  have 1: "record_progress JqFailsPartial 1 ?fs prd_json = ?fs prd_json" by blast
  from C8_atomic_rewrite [of JqOk 1 ?fs] mem
  have "redirect_tmp ?fs prd_json = ?fs prd_json \<or> redirect_tmp ?fs = record_progress JqOk 1 ?fs"
    by blast
  then have 2: "redirect_tmp ?fs prd_json = Some (Document (prd_of [story1]))"
    using f by (auto simp: redirect_tmp_def)
  from bad good f 1 2 mem show ?thesis by blast
qed

text \<open>
  C9. For a Task List whose ids are strictly increasing: once a pass has selected
  item k, the agent has succeeded and the rewrite has succeeded, \<^verbatim>\<open>prd.json\<close> holds
  the document with k marked, and a selection from that file, as a restarted script
  makes first, or from the file of any state reached by further passes, returns an
  item with an id above k, never k.
\<close>

theorem C9_resume:
  assumes "sorted_wrt (<) (map story_id (userStories d))"
    and "files s prd_json = Some (Document d)"
    and "next_story d = Some st"
    and "claude_ok e" and "jq_run e = JqOk"
    and "iteration e i s = Continue s'"
    and "reaches s' t"
  shows "files s' prd_json = Some (Document (mark_story (story_id st) d)) \<and>
         (\<forall>n. NEXT_STORY (files s' prd_json) = Some n \<longrightarrow> story_id st < story_id n) \<and>
         (\<forall>n. NEXT_STORY (files t prd_json) = Some n \<longrightarrow> story_id st < story_id n)"
proof -
  let ?d1 = "mark_story (story_id st) d"
  from iteration_Document[OF assms(2), of e i] assms(3,4,5,6)
  have f': "files s' prd_json = Some (Document ?d1)"
    by (auto split: if_splits)
  from reaches_grown[OF assms(7) f'] obtain d2 where
    d2: "files t prd_json = Some (Document d2)" "grown ?d1 d2" by blast
  have a: "\<forall>n. NEXT_STORY (files s' prd_json) = Some n \<longrightarrow> story_id st < story_id n"
    using f' selected_later[OF assms(1,3) grown_refl] by (simp add: NEXT_STORY_def)
  have b: "\<forall>n. NEXT_STORY (files t prd_json) = Some n \<longrightarrow> story_id st < story_id n"
    using d2 selected_later[OF assms(1,3) d2(2)] by (simp add: NEXT_STORY_def)
  from f' a b show ?thesis by blast
qed

theorem C9_resume_witness:
  "sorted_wrt (<) (map story_id (userStories (prd_of [story1, story2]))) \<and>
   files (start (prd_of [story1, story2])) prd_json = Some (Document (prd_of [story1, story2])) \<and>
   next_story (prd_of [story1, story2]) = Some story1 \<and>
   claude_ok busy \<and> jq_run busy = JqOk \<and>
   iteration busy 1 (start (prd_of [story1, story2]))
     = Continue (after (iteration busy 1 (start (prd_of [story1, story2])))) \<and>
   reaches (after (iteration busy 1 (start (prd_of [story1, story2]))))
           (after (iteration busy 1 (start (prd_of [story1, story2])))) \<and>
   NEXT_STORY (files (after (iteration busy 1 (start (prd_of [story1, story2])))) prd_json)
     = Some story2 \<and>
   story_id story1 < story_id story2"
proof -
  let ?d = "prd_of [story1, story2]"
  let ?s' = "after (iteration busy 1 (start ?d))"
  have srt: "sorted_wrt (<) (map story_id (userStories ?d))"
    by (simp add: prd_of_def story1_def story2_def)
  have e: "ctx_status busy = 0" "claude_ok busy" "jq_run busy = JqOk"
    by (simp_all add: busy_def quiet_def)
  from iteration_Document[OF start_files, of ?d busy 1] next_story_two e
  have it: "iteration busy 1 (start ?d) = Continue ?s'" by auto
  have r: "reaches ?s' ?s'" by (rule reaches_refl)
  note c9 = C9_resume [OF srt start_files next_story_two e(2) e(3) it r]
  have m: "mark_story (story_id story1) ?d = prd_of [story1\<lparr>passes := True\<rparr>, story2]"
    by (simp add: mark_story_def prd_of_def mark_def story1_def story2_def)
  have "next_story (prd_of [story1\<lparr>passes := True\<rparr>, story2]) = Some story2"
    by (simp add: next_story_def prd_of_def story1_def story2_def)
  with c9 m have sel: "NEXT_STORY (files ?s' prd_json) = Some story2"
    by (simp add: NEXT_STORY_def)
  with c9 have "story_id story1 < story_id story2" by blast
  with srt start_files next_story_two e it r sel show ?thesis by blast
qed

text \<open>
  C10. With a target id that no item has, the marking filter returns the document
  unchanged, jq succeeds, and the Progress Recorder leaves the same document in
  \<^verbatim>\<open>prd.json\<close>.
\<close>

theorem C10_absent_target:
  assumes "t \<notin> story_id ` set (userStories d)"
  shows "mark_story t d = d \<and>
         (fs prd_json = Some (Document d) \<longrightarrow>
            rewrite_ok JqOk t fs \<and> record_progress JqOk t fs prd_json = Some (Document d))"
  using assms
  by (auto simp: mark_story_absent record_progress_Document rewrite_ok_def jq_rewrite_def
        redirect_tmp_def)

theorem C10_absent_target_witness:
  "3 \<notin> story_id ` set (userStories (prd_of [story1, story2])) \<and>
   mark_story 3 (prd_of [story1, story2]) = prd_of [story1, story2] \<and>
   rewrite_ok JqOk 3 (files (start (prd_of [story1, story2]))) \<and>
   record_progress JqOk 3 (files (start (prd_of [story1, story2]))) prd_json
     = Some (Document (prd_of [story1, story2]))"
proof -
  have h: "3 \<notin> story_id ` set (userStories (prd_of [story1, story2]))"
    by (simp add: prd_of_def story1_def story2_def)
  have f: "files (start (prd_of [story1, story2])) prd_json = Some (Document (prd_of [story1, story2]))"
    by (simp add: start_def)
  from C10_absent_target [OF h, of "files (start (prd_of [story1, story2]))"] h f
  show ?thesis by simp
qed

end
